theory Spec2Isabelle
  imports Complex_Main "HOL-Library.Log_Nat"
begin

section \<open>Binary floating-point values and their rounding\<close>

text \<open>
  The program computes with C \<^verbatim>\<open>float\<close> (binary32) and \<^verbatim>\<open>double\<close> (binary64)
  values. A value is a finite rational, the negative zero, an infinity or a
  NaN; \<open>Finite 0\<close> is the positive zero. Every arithmetic operation computes
  the exact rational result and rounds it to the format (round to nearest,
  ties to even), overflowing to an infinity and keeping the sign of a result
  that rounds to zero; an operation on \<^verbatim>\<open>float\<close> operands is rounded to
  binary32, one with a \<^verbatim>\<open>double\<close> operand to binary64.
\<close>

datatype fp = Finite rat | NegZero | PInf | MInf | NaN

definition floor_log2 :: "rat \<Rightarrow> int" where
  "floor_log2 q =
     (let (a, b) = quotient_of q; d = bitlen a - bitlen b
      in if 2 powi d \<le> q then d else d - 1)"

definition round_half_even :: "rat \<Rightarrow> int" where
  "round_half_even q =
     (let f = \<lfloor>q\<rfloor>; r = q - of_int f
      in if r < 1 / 2 then f else if 1 / 2 < r then f + 1
         else if even f then f else f + 1)"

text \<open>
  \<open>round_to_format p elsb x\<close> rounds \<open>x\<close> to the nearest multiple of the unit in
  the last place of a format with \<open>p\<close> significant bits whose least subnormal
  bit has exponent \<open>elsb\<close>.
\<close>

definition round_to_format :: "int \<Rightarrow> int \<Rightarrow> rat \<Rightarrow> rat" where
  "round_to_format p elsb x =
     (if x = 0 then 0
      else let e = max (floor_log2 \<bar>x\<bar> - (p - 1)) elsb
           in of_int (round_half_even (x / 2 powi e)) * 2 powi e)"

definition max_float32 :: rat where
  "max_float32 = (2 ^ 24 - 1) * 2 ^ 104"

definition max_float64 :: rat where
  "max_float64 = (2 ^ 53 - 1) * 2 ^ 971"

definition overflow_to :: "rat \<Rightarrow> rat \<Rightarrow> fp" where
  "overflow_to mx r = (if mx < r then PInf else if r < - mx then MInf else Finite r)"

text \<open>A negative number that rounds to zero gives the negative zero.\<close>

definition fl32 :: "rat \<Rightarrow> fp" where
  "fl32 x =
     (let r = round_to_format 24 (- 149) x
      in if x < 0 \<and> r = 0 then NegZero else overflow_to max_float32 r)"

definition fl64 :: "rat \<Rightarrow> fp" where
  "fl64 x =
     (let r = round_to_format 53 (- 1074) x
      in if x < 0 \<and> r = 0 then NegZero else overflow_to max_float64 r)"

fun is_zero :: "fp \<Rightarrow> bool" where
  "is_zero (Finite x) = (x = 0)"
| "is_zero NegZero = True"
| "is_zero a = False"

fun is_neg :: "fp \<Rightarrow> bool" where
  "is_neg (Finite x) = (x < 0)"
| "is_neg NegZero = True"
| "is_neg MInf = True"
| "is_neg a = False"

text \<open>Negation inverts the sign, also that of a zero.\<close>

fun fp_neg :: "fp \<Rightarrow> fp" where
  "fp_neg (Finite x) = (if x = 0 then NegZero else Finite (- x))"
| "fp_neg NegZero = Finite 0"
| "fp_neg PInf = MInf"
| "fp_neg MInf = PInf"
| "fp_neg NaN = NaN"

text \<open>
  The operations take the rounding of the format they are carried out in.
  A sum that is exactly zero is the positive zero, unless both operands are
  the negative zero. The sign of a product is the exclusive or of the signs
  of its factors, also when it is zero.
\<close>

fun fp_add :: "(rat \<Rightarrow> fp) \<Rightarrow> fp \<Rightarrow> fp \<Rightarrow> fp" where
  "fp_add rnd (Finite x) (Finite y) = rnd (x + y)"
| "fp_add rnd NegZero NegZero = NegZero"
| "fp_add rnd NegZero (Finite y) = rnd y"
| "fp_add rnd (Finite x) NegZero = rnd x"
| "fp_add rnd NaN b = NaN"
| "fp_add rnd a NaN = NaN"
| "fp_add rnd PInf MInf = NaN"
| "fp_add rnd MInf PInf = NaN"
| "fp_add rnd PInf b = PInf"
| "fp_add rnd MInf b = MInf"
| "fp_add rnd a PInf = PInf"
| "fp_add rnd a MInf = MInf"

definition fp_sub :: "(rat \<Rightarrow> fp) \<Rightarrow> fp \<Rightarrow> fp \<Rightarrow> fp" where
  "fp_sub rnd a b = fp_add rnd a (fp_neg b)"

fun fp_mul :: "(rat \<Rightarrow> fp) \<Rightarrow> fp \<Rightarrow> fp \<Rightarrow> fp" where
  "fp_mul rnd (Finite x) (Finite y) =
     (if x * y = 0 then (if (x < 0) = (y < 0) then Finite 0 else NegZero)
      else rnd (x * y))"
| "fp_mul rnd (Finite x) NegZero = (if x < 0 then Finite 0 else NegZero)"
| "fp_mul rnd NegZero (Finite y) = (if y < 0 then Finite 0 else NegZero)"
| "fp_mul rnd NegZero NegZero = Finite 0"
| "fp_mul rnd NaN b = NaN"
| "fp_mul rnd a NaN = NaN"
| "fp_mul rnd a b =
     (if is_zero a \<or> is_zero b then NaN
      else if is_neg a = is_neg b then PInf else MInf)"

text \<open>Division by the constant 2, the only division of the program.\<close>

fun fp_div2 :: "(rat \<Rightarrow> fp) \<Rightarrow> fp \<Rightarrow> fp" where
  "fp_div2 rnd (Finite x) = rnd (x / 2)"
| "fp_div2 rnd a = a"

text \<open>
  The comparison \<^verbatim>\<open>==\<close>: a NaN is equal to nothing, the two zeros are equal.
\<close>

fun fp_eq :: "fp \<Rightarrow> fp \<Rightarrow> bool" where
  "fp_eq NaN b = False"
| "fp_eq a NaN = False"
| "fp_eq a b = (a = b \<or> (is_zero a \<and> is_zero b))"

text \<open>Conversions of a C \<^verbatim>\<open>int\<close> to \<^verbatim>\<open>float\<close> and to \<^verbatim>\<open>double\<close>.\<close>

definition int_to_float :: "int \<Rightarrow> fp" where
  "int_to_float k = fl32 (of_int k)"

definition int_to_double :: "int \<Rightarrow> fp" where
  "int_to_double k = fl64 (of_int k)"

text \<open>
  The two calls of the C library's \<^verbatim>\<open>pow\<close>, at the bases the program uses.
  \<^verbatim>\<open>pow(-1.0, y)\<close> is 1 at an even integer, a zero or an infinity, -1 at an odd
  integer and a NaN (domain error) at any other finite \<open>y\<close>. \<^verbatim>\<open>pow(2.0, y)\<close> at an
  integer \<open>y\<close> is the power of two, rounded to binary64 where it leaves the
  normal range. The library's result at a fractional exponent of base 2 is
  an approximation of an irrational number and is not modelled: the model
  answers NaN there, and \<open>convert_ieee_float\<close> never asks for it, since
  its exponent argument is always an integer or an infinity
  (lemmas \<open>parse_int_loop_integral\<close> and \<open>pow_2_argument_integral\<close>).
\<close>

definition is_integral :: "rat \<Rightarrow> bool" where
  "is_integral y \<longleftrightarrow> of_int \<lfloor>y\<rfloor> = y"

fun pow_neg1 :: "fp \<Rightarrow> fp" where
  "pow_neg1 (Finite y) =
     (if is_integral y then (if even \<lfloor>y\<rfloor> then Finite 1 else Finite (- 1)) else NaN)"
| "pow_neg1 NegZero = Finite 1"
| "pow_neg1 PInf = Finite 1"
| "pow_neg1 MInf = Finite 1"
| "pow_neg1 NaN = NaN"

fun pow_2 :: "fp \<Rightarrow> fp" where
  "pow_2 (Finite y) =
     (if is_integral y
      then (if 1023 < y then PInf else if y < - 1075 then Finite 0
            else fl64 (2 powi \<lfloor>y\<rfloor>))
      else NaN)"
| "pow_2 NegZero = Finite 1"
| "pow_2 PInf = PInf"
| "pow_2 MInf = Finite 0"
| "pow_2 NaN = NaN"

section \<open>The bit parser\<close>

text \<open>
  A C string is modelled by its characters before the terminator. The value of
  a \<^verbatim>\<open>char\<close> promoted to \<^verbatim>\<open>int\<close> is its code, read as a signed byte.
\<close>

definition char_to_int :: "char \<Rightarrow> int" where
  "char_to_int c = (let n = of_char c in if n < 128 then n else n - 256)"

text \<open>
  \<^verbatim>\<open>while (*binary_string) acc = acc * 2 + (*binary_string++ - '0');\<close>
\<close>

fun parse_int_loop :: "fp \<Rightarrow> string \<Rightarrow> fp" where
  "parse_int_loop acc [] = acc"
| "parse_int_loop acc (c # cs) =
     parse_int_loop
       (fp_add fl32 (fp_mul fl32 acc (int_to_float 2))
          (int_to_float (char_to_int c - char_to_int CHR ''0''))) cs"

text \<open>
  \<^verbatim>\<open>while (*binary_string) { acc += (*binary_string++ - '0') * factor; factor /= 2; }\<close>
\<close>

fun parse_frac_loop :: "fp \<Rightarrow> fp \<Rightarrow> string \<Rightarrow> fp" where
  "parse_frac_loop acc factor [] = acc"
| "parse_frac_loop acc factor (c # cs) =
     parse_frac_loop
       (fp_add fl32 acc
          (fp_mul fl32 (int_to_float (char_to_int c - char_to_int CHR ''0'')) factor))
       (fp_div2 fl32 factor) cs"

definition parse_bits :: "string \<Rightarrow> int \<Rightarrow> fp" where
  "parse_bits binary_string is_fractional =
     (if is_fractional = 0 then parse_int_loop (Finite 0) binary_string
      else parse_frac_loop (Finite 0) (Finite (1 / 2)) binary_string)"

section \<open>The IEEE reconstructor\<close>

record split_fields =
  sign :: string
  exponent :: string
  fraction :: string

text \<open>
  The result is the returned \<^verbatim>\<open>double\<close> together with the messages handed to
  \<^verbatim>\<open>perror\<close>. The diagnostic \<^verbatim>\<open>printf\<close> does not influence either.
\<close>

text \<open>The argument of \<^verbatim>\<open>perror("Exponent is 255\n")\<close>.\<close>

definition exponent_message :: string where
  "exponent_message = ''Exponent is 255'' @ [CHR 0x0A]"

definition convert_ieee_float :: "split_fields \<Rightarrow> fp \<times> string list" where
  "convert_ieee_float full_float =
     (let exponent_size = 127;
          sign_v = parse_bits (sign full_float) 0;
          exponent_v = parse_bits (exponent full_float) 0;
          fraction_v = parse_bits (fraction full_float) 1;
          sign_part = pow_neg1 sign_v
      in if fp_eq exponent_v (int_to_float 255) then (Finite 0, [exponent_message])
         else
           let exp_part =
                 (if fp_eq exponent_v (int_to_float 0)
                  then pow_2 (int_to_double (1 - exponent_size))
                  else pow_2 (fp_sub fl32 exponent_v (int_to_float exponent_size)));
               frac_part = fp_add fl64 (Finite 1) fraction_v
           in (fp_mul fl64 (fp_mul fl64 sign_part exp_part) frac_part, []))"

section \<open>The field splitter\<close>

text \<open>
  The splitter reads the caller's memory through a pointer and writes three
  blocks obtained from \<^verbatim>\<open>malloc\<close>. The memory that may be read through
  \<^verbatim>\<open>binary_float\<close> is a list of bytes (the string, its terminator and
  whatever follows inside the same array); a pointer is null or an offset
  into it; a read outside of it has no defined behaviour and is the error
  \<open>OutOfBounds\<close>. An allocator tells, for the k-th call of \<^verbatim>\<open>malloc\<close>,
  whether it fails and otherwise the indeterminate initial bytes of the block.
\<close>

datatype error = AllocationFailure | OutOfBounds | NullDereference

datatype ptr = Null | Ptr nat

type_synonym allocator = "nat \<Rightarrow> (nat \<Rightarrow> char) option"

definition NUL :: char where
  "NUL = CHR 0x00"

definition malloc :: "allocator \<Rightarrow> nat \<Rightarrow> nat \<Rightarrow> char list option" where
  "malloc al k n = map_option (\<lambda>init. map init [0..<n]) (al k)"

fun read_at :: "char list \<Rightarrow> ptr \<Rightarrow> error + char" where
  "read_at buf Null = Inl NullDereference"
| "read_at buf (Ptr i) = (if i < length buf then Inr (buf ! i) else Inl OutOfBounds)"

fun ptr_inc :: "ptr \<Rightarrow> ptr" where
  "ptr_inc Null = Null"
| "ptr_inc (Ptr i) = Ptr (i + 1)"

text \<open>
  \<^verbatim>\<open>for (int i = 0; i < n && current_bit; i++, current_bit++) dst[i] = *current_bit;\<close>
  The condition tests the pointer, not the character it points to.
\<close>

function copy_bits ::
  "char list \<Rightarrow> nat \<Rightarrow> nat \<Rightarrow> ptr \<Rightarrow> char list \<Rightarrow> error + (char list \<times> ptr)" where
  "copy_bits buf n i current_bit dst =
     (if i < n \<and> current_bit \<noteq> Null
      then (case read_at buf current_bit of
              Inl e \<Rightarrow> Inl e
            | Inr c \<Rightarrow>
                if i < length dst
                then copy_bits buf n (i + 1) (ptr_inc current_bit) (dst[i := c])
                else Inl OutOfBounds)
      else Inr (dst, current_bit))"
  by pat_completeness auto
termination
  by (relation "measure (\<lambda>(buf, n, i, current_bit, dst). n - i)") auto

record whole_float =
  sign_block :: "char list"
  exponent_block :: "char list"
  fraction_block :: "char list"

definition split_binary_float :: "allocator \<Rightarrow> char list \<Rightarrow> error + whole_float" where
  "split_binary_float al binary_float =
     (case al 0 of
        None \<Rightarrow> Inl AllocationFailure
      | Some _ \<Rightarrow>
     (case malloc al 1 2 of
        None \<Rightarrow> Inl AllocationFailure
      | Some b0 \<Rightarrow>
     (case read_at binary_float (Ptr 0) of
        Inl e \<Rightarrow> Inl e
      | Inr c0 \<Rightarrow>
     (case malloc al 2 9 of
        None \<Rightarrow> Inl AllocationFailure
      | Some b1 \<Rightarrow>
     (case copy_bits binary_float 8 0 (ptr_inc (Ptr 0)) b1 of
        Inl e \<Rightarrow> Inl e
      | Inr (b1', current_bit) \<Rightarrow>
     (case malloc al 3 24 of
        None \<Rightarrow> Inl AllocationFailure
      | Some b2 \<Rightarrow>
     (case copy_bits binary_float 23 0 current_bit b2 of
        Inl e \<Rightarrow> Inl e
      | Inr (b2', current_bit') \<Rightarrow>
          Inr \<lparr>sign_block = b0[0 := c0, 1 := NUL],
               exponent_block = b1'[8 := NUL],
               fraction_block = b2'[23 := NUL]\<rparr>)))))))"

text \<open>The C string that starts a block: its bytes before the first terminator.\<close>

definition c_str :: "char list \<Rightarrow> string" where
  "c_str block = takeWhile (\<lambda>c. c \<noteq> NUL) block"

definition fields_of :: "whole_float \<Rightarrow> split_fields" where
  "fields_of w =
     \<lparr>sign = c_str (sign_block w), exponent = c_str (exponent_block w),
      fraction = c_str (fraction_block w)\<rparr>"

section \<open>The pipeline\<close>

text \<open>
  \<^verbatim>\<open>char user_binary_float[33]; scanf("%s", user_binary_float);\<close>
  The array holds the word read, its terminator, and behind it the stale bytes
  it held before. A word of more than 32 characters overflows the array.
  \<open>main\<close> returns what the program prints as its result, the value of
  \<^verbatim>\<open>decimal_float\<close>, with the messages of \<^verbatim>\<open>perror\<close>; when the splitter
  returns the null pointer, \<open>convert_ieee_float\<close> dereferences it.
\<close>

definition scanf_buffer :: "(nat \<Rightarrow> char) \<Rightarrow> string \<Rightarrow> char list" where
  "scanf_buffer stale word = word @ [NUL] @ map stale [length word + 1..<33]"

definition main :: "allocator \<Rightarrow> (nat \<Rightarrow> char) \<Rightarrow> string \<Rightarrow> error + fp \<times> string list" where
  "main al stale word =
     (if 32 < length word then Inl OutOfBounds
      else case split_binary_float al (scanf_buffer stale word) of
             Inl AllocationFailure \<Rightarrow> Inl NullDereference
           | Inl e \<Rightarrow> Inl e
           | Inr w \<Rightarrow> Inr (convert_ieee_float (fields_of w)))"

section \<open>Bit strings and their values\<close>

text \<open>
  The vocabulary of the statements below: a string of binary digits, the
  natural number it denotes when read most significant bit first, and the
  fields of a 32-bit word (1 sign bit, 8 exponent bits, 23 fraction bits).
\<close>

definition binary :: "string \<Rightarrow> bool" where
  "binary s \<longleftrightarrow> list_all (\<lambda>c. c = CHR ''0'' \<or> c = CHR ''1'') s"

definition digit :: "char \<Rightarrow> nat" where
  "digit c = (if c = CHR ''1'' then 1 else 0)"

fun nat_of_bits :: "nat \<Rightarrow> string \<Rightarrow> nat" where
  "nat_of_bits a [] = a"
| "nat_of_bits a (c # cs) = nat_of_bits (2 * a + digit c) cs"

definition well_formed :: "split_fields \<Rightarrow> bool" where
  "well_formed f \<longleftrightarrow>
     length (sign f) = 1 \<and> length (exponent f) = 8 \<and> length (fraction f) = 23 \<and>
     binary (sign f) \<and> binary (exponent f) \<and> binary (fraction f)"

text \<open>Every call of \<^verbatim>\<open>malloc\<close> made by the splitter succeeds.\<close>

definition all_allocated :: "allocator \<Rightarrow> bool" where
  "all_allocated al \<longleftrightarrow> al 0 \<noteq> None \<and> al 1 \<noteq> None \<and> al 2 \<noteq> None \<and> al 3 \<noteq> None"




text \<open>A value that is an integer or an infinity.\<close>

fun integral_or_inf :: "fp \<Rightarrow> bool" where
  "integral_or_inf (Finite y) = is_integral y"
| "integral_or_inf NegZero = True"
| "integral_or_inf PInf = True"
| "integral_or_inf MInf = True"
| "integral_or_inf NaN = False"

section \<open>Rounding is exact on representable numbers\<close>

lemma round_half_even_of_int: "round_half_even (of_int n) = n"
  by (simp add: round_half_even_def)

lemma powi_less_imp_less: "(2::rat) powi a < 2 powi b \<Longrightarrow> a < b"
  using power_int_increasing [of b a "2::rat"] by (cases "a < b") auto

lemma floor_log2_le:
  assumes "0 < q"
  shows "2 powi floor_log2 q \<le> q"
proof -
  obtain a b where ab: "quotient_of q = (a, b)"
    by (cases "quotient_of q")
  have b: "0 < b" using ab quotient_of_denom_pos by blast
  have q: "q = of_int a / of_int b" using ab quotient_of_div by blast
  have a: "0 < a"
    using assms b unfolding q by (simp add: zero_less_divide_iff)
  have la: "1 \<le> bitlen a" and lb: "1 \<le> bitlen b"
    using a b by (simp_all add: bitlen_alt_def)
  have "(2::int) ^ nat (bitlen a - 1) \<le> a"
    using bitlen_bounds [OF a] by simp
  then have "(of_int ((2::int) ^ nat (bitlen a - 1)) :: rat) \<le> of_int a"
    by (simp only: of_int_le_iff)
  then have num: "(2::rat) powi (bitlen a - 1) \<le> of_int a"
    using la by (simp add: power_int_nonneg_exp)
  have "b < (2::int) ^ nat (bitlen b)"
    using bitlen_bounds [OF b] by simp
  then have "(of_int b :: rat) < of_int ((2::int) ^ nat (bitlen b))"
    by (simp only: of_int_less_iff)
  then have den: "(of_int b :: rat) \<le> 2 powi bitlen b"
    using lb by (simp add: power_int_nonneg_exp)
  have "(2::rat) powi (bitlen a - bitlen b - 1) = 2 powi (bitlen a - 1) / 2 powi bitlen b"
    by (simp add: power_int_diff)
  also have "\<dots> \<le> of_int a / of_int b"
    using num den a b by (intro frac_le) simp_all
  finally have low: "(2::rat) powi (bitlen a - bitlen b - 1) \<le> q"
    by (simp add: q)
  show ?thesis
    using low by (simp add: floor_log2_def ab Let_def)
qed

lemma round_to_format_exact:
  assumes x: "x = of_int m * 2 powi e'"
    and m: "\<bar>m\<bar> < 2 ^ nat p"
    and e': "elsb \<le> e'"
    and p: "0 < p"
  shows "round_to_format p elsb x = x"
proof (cases "x = 0")
  case True
  then show ?thesis by (simp add: round_to_format_def)
next
  case False
  define e where "e = max (floor_log2 \<bar>x\<bar> - (p - 1)) elsb"
  have "2 powi floor_log2 \<bar>x\<bar> \<le> \<bar>x\<bar>"
    using False by (intro floor_log2_le) simp
  also have "\<bar>x\<bar> = of_int \<bar>m\<bar> * 2 powi e'"
    by (simp add: x abs_mult)
  also have "\<dots> < of_int (2 ^ nat p) * 2 powi e'"
    using m by (intro mult_strict_right_mono) (simp_all only: of_int_less_iff zero_less_power_int zero_less_numeral)
  also have "\<dots> = 2 powi (p + e')"
    using p by (simp add: power_int_add power_int_nonneg_exp)
  finally have "floor_log2 \<bar>x\<bar> < p + e'"
    by (rule powi_less_imp_less)
  then have le: "e \<le> e'"
    using e' by (simp add: e_def)
  have "x / 2 powi e = of_int m * 2 powi (e' - e)"
    by (simp add: x power_int_diff)
  also have "\<dots> = of_int (m * 2 ^ nat (e' - e))"
    using le by (simp add: power_int_nonneg_exp)
  finally have "round_half_even (x / 2 powi e) = m * 2 ^ nat (e' - e)"
    by (simp only: round_half_even_of_int)
  then have "of_int (round_half_even (x / 2 powi e)) * 2 powi e = of_int m * 2 powi (e' - e) * 2 powi e"
    using le by (simp add: power_int_nonneg_exp)
  also have "\<dots> = x"
    by (simp add: x power_int_diff)
  finally show ?thesis
    using False by (simp add: round_to_format_def e_def Let_def)
qed


lemma fp_mul_nonzero: "x * y \<noteq> 0 \<Longrightarrow> fp_mul rnd (Finite x) (Finite y) = rnd (x * y)"
  by simp

lemma fp_mul_nonneg:
  "0 \<le> x \<Longrightarrow> 0 \<le> y \<Longrightarrow> rnd 0 = Finite 0 \<Longrightarrow> fp_mul rnd (Finite x) (Finite y) = rnd (x * y)"
  by auto

lemma overflow_to_Finite: "\<bar>r\<bar> \<le> mx \<Longrightarrow> overflow_to mx r = Finite r"
  by (auto simp: overflow_to_def)

lemma fl32_exact:
  assumes m: "\<bar>m\<bar> < 2 ^ 24" and lo: "- 149 \<le> e" and hi: "e \<le> 104"
  shows "fl32 (of_int m * 2 powi e) = Finite (of_int m * 2 powi e)"
proof -
  have r: "round_to_format 24 (- 149) (of_int m * 2 powi e) = of_int m * 2 powi e"
    using m lo by (intro round_to_format_exact [where m = m and e' = e]) simp_all
  have "\<bar>m\<bar> \<le> 2 ^ 24 - 1" using m by simp
  then have "(of_int \<bar>m\<bar> :: rat) \<le> of_int (2 ^ 24 - 1)"
    by (simp only: of_int_le_iff)
  then have m': "(of_int \<bar>m\<bar> :: rat) \<le> 2 ^ 24 - 1" by simp
  have "(2::rat) powi e \<le> 2 powi 104"
    using hi by (intro power_int_increasing) simp_all
  then have e': "(2::rat) powi e \<le> 2 ^ 104" by simp
  have "\<bar>of_int m * 2 powi e :: rat\<bar> = of_int \<bar>m\<bar> * 2 powi e"
    by (simp add: abs_mult)
  also have "\<dots> \<le> (2 ^ 24 - 1) * 2 ^ 104"
    using m' e' by (intro mult_mono) simp_all
  finally have "overflow_to max_float32 (of_int m * 2 powi e) = Finite (of_int m * 2 powi e)"
    by (simp add: max_float32_def overflow_to_Finite)
  then show ?thesis
    unfolding fl32_def r Let_def by auto
qed

lemma fl64_exact:
  assumes m: "\<bar>m\<bar> < 2 ^ 53" and lo: "- 1074 \<le> e" and hi: "e \<le> 971"
  shows "fl64 (of_int m * 2 powi e) = Finite (of_int m * 2 powi e)"
proof -
  have r: "round_to_format 53 (- 1074) (of_int m * 2 powi e) = of_int m * 2 powi e"
    using m lo by (intro round_to_format_exact [where m = m and e' = e]) simp_all
  have "\<bar>m\<bar> \<le> 2 ^ 53 - 1" using m by simp
  then have "(of_int \<bar>m\<bar> :: rat) \<le> of_int (2 ^ 53 - 1)"
    by (simp only: of_int_le_iff)
  then have m': "(of_int \<bar>m\<bar> :: rat) \<le> 2 ^ 53 - 1" by simp
  have "(2::rat) powi e \<le> 2 powi 971"
    using hi by (intro power_int_increasing) simp_all
  then have e': "(2::rat) powi e \<le> 2 ^ 971" by simp
  have "\<bar>of_int m * 2 powi e :: rat\<bar> = of_int \<bar>m\<bar> * 2 powi e"
    by (simp add: abs_mult)
  also have "\<dots> \<le> (2 ^ 53 - 1) * 2 ^ 971"
    using m' e' by (intro mult_mono) simp_all
  finally have "overflow_to max_float64 (of_int m * 2 powi e) = Finite (of_int m * 2 powi e)"
    by (simp add: max_float64_def overflow_to_Finite)
  then show ?thesis
    unfolding fl64_def r Let_def by auto
qed

lemma fl32_of_int: "\<bar>m\<bar> < 2 ^ 24 \<Longrightarrow> fl32 (of_int m) = Finite (of_int m)"
  using fl32_exact [of m 0] by simp

lemma fl32_of_nat: "n < 2 ^ 24 \<Longrightarrow> fl32 (of_nat n) = Finite (of_nat n)"
  using fl32_of_int [of "int n"] by simp

lemma fl32_dyadic:
  assumes "n < 2 ^ 24" and "k \<le> 149"
  shows "fl32 (of_nat n / 2 ^ k) = Finite (of_nat n / 2 ^ k)"
proof -
  have "(of_nat n / 2 ^ k :: rat) = of_int (int n) * 2 powi (- int k)"
    by (simp add: power_int_minus divide_inverse)
  moreover have "fl32 (of_int (int n) * 2 powi (- int k)) = Finite (of_int (int n) * 2 powi (- int k))"
    using assms by (intro fl32_exact) simp_all
  ultimately show ?thesis by simp
qed

lemma int_to_float_small: "\<bar>k\<bar> < 2 ^ 24 \<Longrightarrow> int_to_float k = Finite (of_int k)"
  by (simp add: int_to_float_def fl32_of_int)

section \<open>The bit parser on binary digits\<close>

lemma digit_val: "c = CHR ''0'' \<or> c = CHR ''1'' \<Longrightarrow>
   int_to_float (char_to_int c - char_to_int CHR ''0'') = Finite (of_nat (digit c))"
  by (auto simp: digit_def char_to_int_def int_to_float_small)

lemma digit_le: "digit c \<le> 1"
  by (simp add: digit_def)

lemma parse_int_loop_bits:
  assumes "binary s" and "a < 2 ^ k" and "k + length s \<le> 24"
  shows "parse_int_loop (Finite (of_nat a)) s = Finite (of_nat (nat_of_bits a s))
         \<and> nat_of_bits a s < 2 ^ (k + length s)"
  using assms
proof (induction s arbitrary: a k)
  case Nil
  then show ?case by simp
next
  case (Cons c cs)
  have c: "c = CHR ''0'' \<or> c = CHR ''1''" and cs: "binary cs"
    using Cons.prems(1) by (simp_all add: binary_def)
  have k: "Suc k \<le> 24" using Cons.prems(3) by simp
  have "2 * a + digit c < 2 * 2 ^ k"
    using Cons.prems(2) digit_le [of c] by linarith
  then have a': "2 * a + digit c < 2 ^ Suc k" by simp
  also have "(2::nat) ^ Suc k \<le> 2 ^ 24"
    using k by (intro power_increasing) simp_all
  finally have small: "2 * a + digit c < 2 ^ 24" .
  then have small2: "a * 2 < 2 ^ 24" by linarith
  have two: "int_to_float 2 = Finite 2"
    using int_to_float_small [of 2] by simp
  have "fp_mul fl32 (Finite (of_nat a)) (int_to_float 2) = Finite (of_nat (a * 2))"
    using fl32_of_nat [OF small2] by (simp add: two)
  then have step: "fp_add fl32 (fp_mul fl32 (Finite (of_nat a)) (int_to_float 2))
          (int_to_float (char_to_int c - char_to_int CHR ''0''))
        = Finite (of_nat (2 * a + digit c))"
    using fl32_of_nat [OF small] by (simp add: digit_val [OF c] mult.commute)
  have "parse_int_loop (Finite (of_nat (2 * a + digit c))) cs
          = Finite (of_nat (nat_of_bits (2 * a + digit c) cs))
        \<and> nat_of_bits (2 * a + digit c) cs < 2 ^ (Suc k + length cs)"
    using Cons.prems(3) by (intro Cons.IH [OF cs a']) simp
  then show ?case
    by (simp add: step)
qed

lemma parse_frac_loop_bits:
  assumes "binary s" and "a < 2 ^ k" and "k + length s \<le> 24"
  shows "parse_frac_loop (Finite (of_nat a / 2 ^ k)) (Finite (1 / 2 ^ Suc k)) s
           = Finite (of_nat (nat_of_bits a s) / 2 ^ (k + length s))"
  using assms
proof (induction s arbitrary: a k)
  case Nil
  then show ?case by simp
next
  case (Cons c cs)
  have c: "c = CHR ''0'' \<or> c = CHR ''1''" and cs: "binary cs"
    using Cons.prems(1) by (simp_all add: binary_def)
  have k: "Suc k \<le> 24" using Cons.prems(3) by simp
  have "2 * a + digit c < 2 * 2 ^ k"
    using Cons.prems(2) digit_le [of c] by linarith
  then have a': "2 * a + digit c < 2 ^ Suc k" by simp
  also have "(2::nat) ^ Suc k \<le> 2 ^ 24"
    using k by (intro power_increasing) simp_all
  finally have small: "2 * a + digit c < 2 ^ 24" .
  have d24: "digit c < 2 ^ 24" using digit_le [of c] by simp
  have prod: "fp_mul fl32 (int_to_float (char_to_int c - char_to_int CHR ''0'')) (Finite (1 / 2 ^ Suc k))
        = Finite (of_nat (digit c) / 2 ^ Suc k)"
    using fl32_dyadic [OF d24, of "Suc k"] k by (simp add: digit_val [OF c])
  have "(of_nat a / 2 ^ k + of_nat (digit c) / 2 ^ Suc k :: rat) = of_nat (2 * a + digit c) / 2 ^ Suc k"
    by (simp add: field_simps)
  then have acc: "fp_add fl32 (Finite (of_nat a / 2 ^ k))
          (fp_mul fl32 (int_to_float (char_to_int c - char_to_int CHR ''0'')) (Finite (1 / 2 ^ Suc k)))
        = Finite (of_nat (2 * a + digit c) / 2 ^ Suc k)"
    using fl32_dyadic [OF small, of "Suc k"] k by (simp only: prod fp_add.simps)
  have "(1 / 2 ^ Suc k / 2 :: rat) = of_nat 1 / 2 ^ Suc (Suc k)" by simp
  then have fac: "fp_div2 fl32 (Finite (1 / 2 ^ Suc k)) = Finite (1 / 2 ^ Suc (Suc k))"
    using fl32_dyadic [of 1 "Suc (Suc k)"] k by (simp only: fp_div2.simps) simp
  have "parse_frac_loop (Finite (of_nat (2 * a + digit c) / 2 ^ Suc k)) (Finite (1 / 2 ^ Suc (Suc k))) cs
          = Finite (of_nat (nat_of_bits (2 * a + digit c) cs) / 2 ^ (Suc k + length cs))"
    using Cons.prems(3) by (intro Cons.IH [OF cs a']) simp
  then show ?case
    by (simp only: parse_frac_loop.simps acc fac nat_of_bits.simps) simp
qed

lemma parse_bits_int:
  assumes "binary s" and "length s \<le> 24"
  shows "parse_bits s 0 = Finite (of_nat (nat_of_bits 0 s))" and "nat_of_bits 0 s < 2 ^ length s"
  using parse_int_loop_bits [OF assms(1), of 0 0] assms(2) by (simp_all add: parse_bits_def)

lemma parse_bits_frac:
  assumes "binary s" and "length s \<le> 24"
  shows "parse_bits s 1 = Finite (of_nat (nat_of_bits 0 s) / 2 ^ length s)"
  using parse_frac_loop_bits [OF assms(1), of 0 0] assms(2) by (simp add: parse_bits_def)

section \<open>The reconstructor on well-formed fields\<close>

lemma pow_neg1_bit: "b < 2 \<Longrightarrow> pow_neg1 (Finite (of_nat b)) = Finite ((- 1) ^ b)"
proof -
  assume "b < 2"
  then have "b = 0 \<or> b = 1" by auto
  then show ?thesis by (auto simp: is_integral_def)
qed

lemma fl64_powi: "- 1074 \<le> e \<Longrightarrow> e \<le> 971 \<Longrightarrow> fl64 (2 powi e) = Finite (2 powi e)"
  using fl64_exact [of 1 e] by simp

lemma pow_2_int:
  assumes "- 1074 \<le> e" and "e \<le> 971"
  shows "pow_2 (Finite (of_int e)) = Finite (2 powi e)"
  using assms by (simp add: is_integral_def fl64_powi)

lemma int_to_double_small: "\<bar>k\<bar> < 2 ^ 53 \<Longrightarrow> int_to_double k = Finite (of_int k)"
  using fl64_exact [of k 0] by (simp add: int_to_double_def)

text \<open>The exponent of the power of two that scales the significand.\<close>

lemma exp_part_value:
  assumes "E < 255"
  shows "(if fp_eq (Finite (of_nat E)) (int_to_float 0)
          then pow_2 (int_to_double (1 - 127))
          else pow_2 (fp_sub fl32 (Finite (of_nat E)) (int_to_float 127)))
         = Finite (2 powi (if E = 0 then - 126 else int E - 127))"
proof (cases "E = 0")
  case True
  have "int_to_double (- 126) = Finite (of_int (- 126))"
    by (intro int_to_double_small) simp
  moreover have "pow_2 (Finite (of_int (- 126))) = Finite (2 powi (- 126))"
    by (intro pow_2_int) simp_all
  moreover have "int_to_float 0 = Finite 0"
    using int_to_float_small [of 0] by simp
  ultimately show ?thesis using True by simp
next
  case False
  have z: "int_to_float 0 = Finite 0"
    using int_to_float_small [of 0] by simp
  have b: "int_to_float 127 = Finite 127"
    using int_to_float_small [of 127] by simp
  have "fl32 (of_int (int E - 127)) = Finite (of_int (int E - 127))"
    using assms by (intro fl32_of_int) simp
  then have s: "fp_sub fl32 (Finite (of_nat E)) (int_to_float 127) = Finite (of_int (int E - 127))"
    by (simp add: fp_sub_def b)
  have "pow_2 (Finite (of_int (int E - 127))) = Finite (2 powi (int E - 127))"
    using assms by (intro pow_2_int) simp_all
  then show ?thesis using False by (simp add: z s)
qed

lemma significand_product:
  assumes S: "S < 2" and X: "- 126 \<le> X" "X \<le> 127" and F: "F < 2 ^ 23"
  shows "fp_mul fl64 (fp_mul fl64 (Finite ((- 1) ^ S)) (Finite (2 powi X)))
           (fp_add fl64 (Finite 1) (Finite (of_nat F / 2 ^ 23)))
         = Finite ((- 1) ^ S * 2 powi X * (1 + of_nat F / 2 ^ 23))"
proof -
  have "fl64 (of_int ((- 1) ^ S) * 2 powi X) = Finite (of_int ((- 1) ^ S) * 2 powi X)"
    using X by (intro fl64_exact) (simp_all add: power_abs)
  then have a: "fp_mul fl64 (Finite ((- 1) ^ S)) (Finite (2 powi X)) = Finite ((- 1) ^ S * 2 powi X)"
    by simp
  have e1: "(1 + of_nat F / 2 ^ 23 :: rat) = of_int (2 ^ 23 + int F) * 2 powi (- 23)"
    by (simp add: power_int_minus field_simps)
  have "fl64 (of_int (2 ^ 23 + int F) * 2 powi (- 23)) = Finite (of_int (2 ^ 23 + int F) * 2 powi (- 23))"
    using F by (intro fl64_exact) simp_all
  then have b: "fp_add fl64 (Finite 1) (Finite (of_nat F / 2 ^ 23)) = Finite (1 + of_nat F / 2 ^ 23)"
    by (simp only: fp_add.simps e1)
  have e2: "(- 1) ^ S * 2 powi X * (1 + of_nat F / 2 ^ 23 :: rat)
      = of_int ((- 1) ^ S * (2 ^ 23 + int F)) * 2 powi (X - 23)"
    by (simp add: power_int_diff field_simps)
  have "fl64 (of_int ((- 1) ^ S * (2 ^ 23 + int F)) * 2 powi (X - 23))
      = Finite (of_int ((- 1) ^ S * (2 ^ 23 + int F)) * 2 powi (X - 23))"
    using F X by (intro fl64_exact) (simp_all add: abs_mult power_abs)
  then have c: "fl64 ((- 1) ^ S * 2 powi X * (1 + of_nat F / 2 ^ 23)) = Finite ((- 1) ^ S * 2 powi X * (1 + of_nat F / 2 ^ 23))"
    by (simp only: e2)
  have "fp_mul fl64 (fp_mul fl64 (Finite ((- 1) ^ S)) (Finite (2 powi X)))
           (fp_add fl64 (Finite 1) (Finite (of_nat F / 2 ^ 23)))
        = fp_mul fl64 (Finite ((- 1) ^ S * 2 powi X)) (Finite (1 + of_nat F / 2 ^ 23))"
    by (simp only: a b)
  also have "\<dots> = fl64 ((- 1) ^ S * 2 powi X * (1 + of_nat F / 2 ^ 23))"
  proof -
    have "0 < (1 + of_nat F / 2 ^ 23 :: rat)"
      by (simp add: add_pos_nonneg)
    then have "(- 1) ^ S * 2 powi X * (1 + of_nat F / 2 ^ 23) \<noteq> (0::rat)"
      by simp
    then show ?thesis
      by (rule fp_mul_nonzero)
  qed
  finally show ?thesis
    by (simp only: c)
qed

lemma convert_ieee_float_well_formed:
  assumes "well_formed f"
  defines "S \<equiv> nat_of_bits 0 (sign f)"
    and "E \<equiv> nat_of_bits 0 (exponent f)"
    and "F \<equiv> nat_of_bits 0 (fraction f)"
  shows "convert_ieee_float f =
     (if E = 255 then (Finite 0, [exponent_message])
      else (Finite ((- 1) ^ S * 2 powi (if E = 0 then - 126 else int E - 127)
                     * (1 + of_nat F / 2 ^ 23)), []))"
proof -
  have wf: "binary (sign f)" "binary (exponent f)" "binary (fraction f)"
    "length (sign f) = 1" "length (exponent f) = 8" "length (fraction f) = 23"
    using assms(1) by (simp_all add: well_formed_def)
  have s: "parse_bits (sign f) 0 = Finite (of_nat S)" and S: "S < 2"
    using parse_bits_int [OF wf(1)] wf(4) by (simp_all add: S_def)
  have e: "parse_bits (exponent f) 0 = Finite (of_nat E)" and E: "E < 256"
    using parse_bits_int [OF wf(2)] wf(5) by (simp_all add: E_def)
  have fr: "parse_bits (fraction f) 1 = Finite (of_nat F / 2 ^ 23)"
    using parse_bits_frac [OF wf(3)] wf(6) by (simp add: F_def)
  have F: "F < 2 ^ 23"
    using parse_bits_int(2) [OF wf(3)] wf(6) by (simp add: F_def)
  have c255: "int_to_float 255 = Finite 255"
    using int_to_float_small [of 255] by simp
  show ?thesis
  proof (cases "E = 255")
    case True
    then show ?thesis
      by (simp add: convert_ieee_float_def e c255)
  next
    case False
    then have E': "E < 255" using E by simp
    define X where "X = (if E = 0 then - 126 else int E - 127)"
    have X: "- 126 \<le> X" "X \<le> 127" using E' by (auto simp: X_def)
    have ne: "\<not> fp_eq (Finite (of_nat E)) (int_to_float 255)"
      using False by (simp add: c255)
    have ep: "(if fp_eq (Finite (of_nat E)) (int_to_float 0)
          then pow_2 (int_to_double (1 - 127))
          else pow_2 (fp_sub fl32 (Finite (of_nat E)) (int_to_float 127))) = Finite (2 powi X)"
      unfolding X_def by (rule exp_part_value [OF E'])
    have conv: "convert_ieee_float f =
       (fp_mul fl64 (fp_mul fl64 (Finite ((- 1) ^ S)) (Finite (2 powi X)))
           (fp_add fl64 (Finite 1) (Finite (of_nat F / 2 ^ 23))), [])"
      unfolding convert_ieee_float_def Let_def s e fr pow_neg1_bit [OF S]
      by (simp only: ne if_False ep)
    have sp: "fp_mul fl64 (fp_mul fl64 (Finite ((- 1) ^ S)) (Finite (2 powi X)))
           (fp_add fl64 (Finite 1) (Finite (of_nat F / 2 ^ 23)))
         = Finite ((- 1) ^ S * 2 powi X * (1 + of_nat F / 2 ^ 23))"
      by (rule significand_product [OF S X F])
    have "convert_ieee_float f = (Finite ((- 1) ^ S * 2 powi X * (1 + of_nat F / 2 ^ 23)), [])"
      by (simp only: conv sp)
    then show ?thesis
      using False by (simp add: X_def)
  qed
qed

section \<open>The reconstructor: special, normal and zero results\<close>

lemma int_to_float_255: "int_to_float 255 = Finite 255"
  using int_to_float_small [of 255] by simp


text \<open>
  C3. Whenever the exponent field parses to 255, \<open>convert_ieee_float\<close> hands
  the message to \<open>perror\<close> and returns the finite value 0, whatever the sign
  and fraction fields hold; the result is neither an infinity nor a NaN.
\<close>

theorem convert_ieee_float_special_exponent:
  assumes "parse_bits (exponent f) 0 = Finite 255"
  shows "convert_ieee_float f = (Finite 0, [exponent_message])
         \<and> fst (convert_ieee_float f) \<notin> {PInf, MInf, NaN}"
  using assms by (simp add: convert_ieee_float_def int_to_float_255)

theorem convert_ieee_float_special_exponent_witness:
  "parse_bits (exponent \<lparr>sign = ''1'', exponent = ''11111111'',
       fraction = ''10100000000000000000001''\<rparr>) 0 = Finite 255
   \<and> convert_ieee_float \<lparr>sign = ''1'', exponent = ''11111111'',
       fraction = ''10100000000000000000001''\<rparr> = (Finite 0, [exponent_message])"
proof -
  have h: "parse_bits (exponent \<lparr>sign = ''1'', exponent = ''11111111'',
       fraction = ''10100000000000000000001''\<rparr>) 0 = Finite 255"
    using parse_bits_int(1) [of "''11111111''"] by (simp add: binary_def digit_def)
  show ?thesis
    using h convert_ieee_float_special_exponent [OF h] by simp
qed

text \<open>
  C4. For well-formed fields with sign bit 0 whose exponent field parses to
  \<open>e\<close> with \<open>1 \<le> e \<le> 254\<close>, the result is \<open>2 ^ (e - 127) * (1 + fraction)\<close>,
  where \<open>fraction\<close> is the fractional-mode parse of the 23 fraction bits; no
  error is signalled.
\<close>

theorem convert_ieee_float_normal:
  assumes "well_formed f" and "sign f = ''0''"
    and "parse_bits (exponent f) 0 = Finite (of_nat e)" and "1 \<le> e" and "e \<le> 254"
  shows "\<exists>fr. parse_bits (fraction f) 1 = Finite fr
           \<and> convert_ieee_float f = (Finite (2 powi (int e - 127) * (1 + fr)), [])"
proof -
  have wf: "binary (exponent f)" "binary (fraction f)"
    "length (exponent f) = 8" "length (fraction f) = 23"
    using assms(1) by (simp_all add: well_formed_def)
  have "parse_bits (exponent f) 0 = Finite (of_nat (nat_of_bits 0 (exponent f)))"
    using parse_bits_int(1) [OF wf(1)] wf(3) by simp
  then have E: "nat_of_bits 0 (exponent f) = e"
    using assms(3) by simp
  have fr: "parse_bits (fraction f) 1 = Finite (of_nat (nat_of_bits 0 (fraction f)) / 2 ^ 23)"
    using parse_bits_frac [OF wf(2)] wf(4) by simp
  have "convert_ieee_float f =
      (Finite (2 powi (int e - 127) * (1 + of_nat (nat_of_bits 0 (fraction f)) / 2 ^ 23)), [])"
    using assms(2,4,5) by (simp add: convert_ieee_float_well_formed [OF assms(1)] E digit_def)
  with fr show ?thesis by blast
qed

theorem convert_ieee_float_normal_witness:
  "well_formed \<lparr>sign = ''0'', exponent = ''10000001'', fraction = ''01000000000000000000000''\<rparr>
   \<and> parse_bits ''10000001'' 0 = Finite (of_nat 129)
   \<and> parse_bits ''01000000000000000000000'' 1 = Finite (1 / 4)
   \<and> convert_ieee_float \<lparr>sign = ''0'', exponent = ''10000001'',
        fraction = ''01000000000000000000000''\<rparr> = (Finite 5, [])"
proof -
  let ?f = "\<lparr>sign = ''0'', exponent = ''10000001'', fraction = ''01000000000000000000000''\<rparr>"
  have wf: "well_formed ?f"
    by (simp add: well_formed_def binary_def)
  have e: "parse_bits (exponent ?f) 0 = Finite (of_nat 129)"
    using parse_bits_int(1) [of "''10000001''"] by (simp add: binary_def digit_def)
  have fr: "parse_bits ''01000000000000000000000'' 1 = Finite (1 / 4)"
    using parse_bits_frac [of "''01000000000000000000000''"] by (simp add: binary_def digit_def)
  obtain y where y: "parse_bits (fraction ?f) 1 = Finite y"
    and c: "convert_ieee_float ?f = (Finite (2 powi (int 129 - 127) * (1 + y)), [])"
    using convert_ieee_float_normal [OF wf _ e] by auto
  have "y = 1 / 4" using y fr by simp
  then show ?thesis
    using wf e fr c by simp
qed

text \<open>
  C10. On well-formed fields the result is 0 exactly when the exponent field
  parses to 255; for every other exponent the result is a finite number of
  absolute value at least \<open>2 ^ - 126\<close>.
\<close>

theorem convert_ieee_float_zero_iff:
  assumes "well_formed f"
  shows "(fst (convert_ieee_float f) = Finite 0 \<longleftrightarrow> parse_bits (exponent f) 0 = Finite 255)
       \<and> (parse_bits (exponent f) 0 \<noteq> Finite 255 \<longrightarrow>
            (\<exists>r. fst (convert_ieee_float f) = Finite r \<and> 2 powi (- 126) \<le> \<bar>r\<bar>))"
proof -
  define S where "S = nat_of_bits 0 (sign f)"
  define E where "E = nat_of_bits 0 (exponent f)"
  define F where "F = nat_of_bits 0 (fraction f)"
  define X where "X = (if E = 0 then - 126 else int E - 127)"
  define r where "r = (- 1) ^ S * 2 powi X * (1 + of_nat F / 2 ^ 23 :: rat)"
  have wf: "binary (exponent f)" "length (exponent f) = 8"
    using assms by (simp_all add: well_formed_def)
  have e: "parse_bits (exponent f) 0 = Finite (of_nat E)"
    using parse_bits_int(1) [OF wf(1)] wf(2) by (simp add: E_def)
  have conv: "convert_ieee_float f =
      (if E = 255 then (Finite 0, [exponent_message]) else (Finite r, []))"
    unfolding r_def X_def S_def E_def F_def by (rule convert_ieee_float_well_formed [OF assms])
  have "(2::rat) powi (- 126) \<le> 2 powi X"
    by (intro power_int_increasing) (simp_all add: X_def)
  also have "\<dots> \<le> 2 powi X * (1 + of_nat F / 2 ^ 23)"
    using mult_left_mono [of 1 "1 + of_nat F / 2 ^ 23" "(2::rat) powi X"] by simp
  also have "\<dots> = \<bar>r\<bar>"
    by (simp add: r_def abs_mult power_abs)
  finally have big: "2 powi (- 126) \<le> \<bar>r\<bar>" .
  then have "r \<noteq> 0" by auto
  then show ?thesis
    using big by (auto simp: conv e)
qed

theorem convert_ieee_float_zero_iff_witness:
  "well_formed \<lparr>sign = ''1'', exponent = ''00000000'', fraction = ''00000000000000000000000''\<rparr>
   \<and> parse_bits ''00000000'' 0 \<noteq> Finite 255
   \<and> fst (convert_ieee_float \<lparr>sign = ''1'', exponent = ''00000000'',
        fraction = ''00000000000000000000000''\<rparr>) \<noteq> Finite 0"
proof -
  let ?f = "\<lparr>sign = ''1'', exponent = ''00000000'', fraction = ''00000000000000000000000''\<rparr>"
  have wf: "well_formed ?f"
    by (simp add: well_formed_def binary_def)
  have e: "parse_bits ''00000000'' 0 \<noteq> Finite 255"
    using parse_bits_int(1) [of "''00000000''"] by (simp add: binary_def digit_def)
  show ?thesis
    using wf e convert_ieee_float_zero_iff [OF wf] by simp
qed

section \<open>The bit parser on zeros\<close>

lemma powi_le_imp_le: "(2::rat) powi a \<le> 2 powi b \<Longrightarrow> a \<le> b"
  using power_int_strict_increasing [of b a "2::rat"] by (cases "a \<le> b") auto

lemma round_half_even_near: "\<bar>of_int (round_half_even q) - q\<bar> \<le> 1"
proof -
  define f where "f = \<lfloor>q\<rfloor>"
  have f: "of_int f \<le> q" "q < of_int f + 1"
    unfolding f_def by linarith+
  have "round_half_even q = f \<or> round_half_even q = f + 1"
    by (auto simp: round_half_even_def Let_def f_def)
  then show ?thesis
    using f by (auto simp: abs_le_iff)
qed

lemma round_to_format_near:
  assumes "x \<noteq> 0"
  shows "\<bar>round_to_format p elsb x - x\<bar> \<le> 2 powi (max (floor_log2 \<bar>x\<bar> - (p - 1)) elsb)"
proof -
  define e where "e = max (floor_log2 \<bar>x\<bar> - (p - 1)) elsb"
  define q where "q = x / 2 powi e"
  have x: "x = q * 2 powi e" by (simp add: q_def)
  have "round_to_format p elsb x = of_int (round_half_even q) * 2 powi e"
    using assms by (simp add: round_to_format_def Let_def e_def q_def)
  then have "round_to_format p elsb x - x = of_int (round_half_even q) * 2 powi e - q * 2 powi e"
    using x by simp
  then have "round_to_format p elsb x - x = (of_int (round_half_even q) - q) * 2 powi e"
    by (simp add: algebra_simps)
  then have "\<bar>round_to_format p elsb x - x\<bar> = \<bar>of_int (round_half_even q) - q\<bar> * 2 powi e"
    by (simp add: abs_mult)
  also have "\<dots> \<le> 1 * 2 powi e"
    by (intro mult_right_mono round_half_even_near) simp
  finally show ?thesis by (simp add: e_def)
qed

lemma fl32_zero: "fl32 0 = Finite 0"
  by (simp add: fl32_def round_to_format_def overflow_to_def max_float32_def)

lemma round_half_even_nonneg: "0 \<le> q \<Longrightarrow> 0 \<le> round_half_even q"
proof -
  assume "0 \<le> q"
  then have "0 \<le> \<lfloor>q\<rfloor>"
    by simp
  then show ?thesis
    by (simp add: round_half_even_def Let_def)
qed

lemma round_to_format_nonneg: "0 \<le> x \<Longrightarrow> 0 \<le> round_to_format p elsb x"
  by (simp add: round_to_format_def Let_def round_half_even_nonneg)

lemma fl32_half_small:
  assumes "0 \<le> x" and "x \<le> 1 / 4"
  shows "\<exists>r. fl32 (x / 2) = Finite r \<and> 0 \<le> r \<and> r \<le> 1 / 4"
proof (cases "x = 0")
  case True
  then show ?thesis by (simp add: fl32_zero)
next
  case False
  define y where "y = x / 2"
  define r where "r = round_to_format 24 (- 149) y"
  have y0: "y \<noteq> 0" and y8: "\<bar>y\<bar> \<le> 1 / 8" and ypos: "0 \<le> y"
    using False assms by (simp_all add: y_def)
  have rpos: "0 \<le> r"
    unfolding r_def by (rule round_to_format_nonneg [OF ypos])
  have "2 powi floor_log2 \<bar>y\<bar> \<le> \<bar>y\<bar>"
    using y0 by (intro floor_log2_le) simp
  also have "\<bar>y\<bar> \<le> 2 powi (- 3)"
    using y8 by simp
  finally have "floor_log2 \<bar>y\<bar> \<le> - 3"
    by (rule powi_le_imp_le)
  then have "max (floor_log2 \<bar>y\<bar> - (24 - 1)) (- 149) \<le> - 26"
    by simp
  then have "(2::rat) powi (max (floor_log2 \<bar>y\<bar> - (24 - 1)) (- 149)) \<le> 2 powi (- 26)"
    by (intro power_int_increasing) simp_all
  then have "\<bar>r - y\<bar> \<le> 2 powi (- 26)"
    using round_to_format_near [OF y0, of 24 "- 149"] unfolding r_def by linarith
  then have "\<bar>r\<bar> \<le> 1 / 8 + 2 powi (- 26)"
    using y8 by linarith
  then have small: "\<bar>r\<bar> \<le> 1 / 4"
    by simp
  then have "\<bar>r\<bar> \<le> max_float32"
    by (simp add: max_float32_def)
  then have "overflow_to max_float32 r = Finite r"
    by (rule overflow_to_Finite)
  then have "fl32 y = Finite r"
    using ypos unfolding fl32_def r_def Let_def by auto
  with small rpos show ?thesis
    by (auto simp: y_def)
qed

lemma int_to_float_0: "int_to_float 0 = Finite 0"
  using int_to_float_small [of 0] by simp

lemma int_to_float_1: "int_to_float 1 = Finite 1"
  using int_to_float_small [of 1] by simp

lemma int_to_float_2: "int_to_float 2 = Finite 2"
  using int_to_float_small [of 2] by simp

lemma parse_int_loop_zeros:
  "parse_int_loop (Finite 0) (replicate n CHR ''0'') = Finite 0"
  by (induction n) (simp_all add: int_to_float_0 int_to_float_2 fl32_zero)

lemma parse_frac_loop_zeros:
  assumes "fl32 a = Finite a" and "0 \<le> f" and "f \<le> 1 / 4"
  shows "parse_frac_loop (Finite a) (Finite f) (replicate n CHR ''0'') = Finite a"
  using assms(2,3)
proof (induction n arbitrary: f)
  case 0
  then show ?case by simp
next
  case (Suc n)
  obtain r where r: "fl32 (f / 2) = Finite r" and small: "0 \<le> r" "r \<le> 1 / 4"
    using fl32_half_small [OF Suc.prems] by blast
  have "fp_mul fl32 (Finite 0) (Finite f) = Finite 0"
    using Suc.prems(1) by (simp add: fp_mul_nonneg fl32_zero)
  then have "parse_frac_loop (Finite a) (Finite f) (replicate (Suc n) CHR ''0'')
      = parse_frac_loop (Finite a) (Finite r) (replicate n CHR ''0'')"
    by (simp add: int_to_float_0 assms(1) r del: fp_mul.simps)
  then show ?case
    using Suc.IH [OF small] by simp
qed

text \<open>
  C8. In integer mode a string of zeros of any length, the empty string
  included, parses to 0; in fractional mode the digit 1 followed by any number
  of zeros parses to one half.
\<close>

theorem parse_bits_zeros_and_half:
  "parse_bits (replicate n CHR ''0'') 0 = Finite 0
   \<and> parse_bits [] 0 = Finite 0
   \<and> parse_bits (CHR ''1'' # replicate n CHR ''0'') 1 = Finite (1 / 2)"
proof -
  have half: "fl32 (1 / 2) = Finite (1 / 2)"
    using fl32_dyadic [of 1 1] by simp
  have quarter: "fl32 (1 / 4) = Finite (1 / 4)"
    using fl32_dyadic [of 1 2] by simp
  have one: "int_to_float (char_to_int CHR ''1'' - char_to_int CHR ''0'') = Finite 1"
    by (simp add: char_to_int_def int_to_float_1)
  have "parse_frac_loop (Finite 0) (Finite (1 / 2)) (CHR ''1'' # replicate n CHR ''0'')
      = parse_frac_loop (Finite (1 / 2)) (Finite (1 / 4)) (replicate n CHR ''0'')"
    by (simp add: one half quarter)
  also have "\<dots> = Finite (1 / 2)"
    by (intro parse_frac_loop_zeros half) simp_all
  finally show ?thesis
    by (simp add: parse_bits_def parse_int_loop_zeros)
qed

section \<open>The splitter on a buffer of at least 32 bytes\<close>

lemma copy_bits_Ptr:
  assumes "cur + (n - i) \<le> length buf" and "n \<le> length dst" and "i \<le> n"
  shows "copy_bits buf n i (Ptr cur) dst
         = Inr (take i dst @ take (n - i) (drop cur buf) @ drop n dst, Ptr (cur + (n - i)))"
  using assms
proof (induction "n - i" arbitrary: i cur dst)
  case 0
  then have "i = n" by simp
  then show ?case
    by (subst copy_bits.simps) simp
next
  case (Suc d)
  then have lt: "i < n" and cur: "cur < length buf" and idst: "i < length dst"
    by simp_all
  have d: "d = n - (i + 1)" using Suc.hyps(2) by simp
  have len: "n \<le> length (dst[i := buf ! cur])" using Suc.prems(2) by simp
  have "copy_bits buf n (i + 1) (Ptr (cur + 1)) (dst[i := buf ! cur])
      = Inr (take (i + 1) (dst[i := buf ! cur]) @ take (n - (i + 1)) (drop (cur + 1) buf)
               @ drop n (dst[i := buf ! cur]), Ptr (cur + 1 + (n - (i + 1))))"
    using Suc.prems lt by (intro Suc.hyps(1) [OF d _ len]) simp_all
  moreover have "take (i + 1) (dst[i := buf ! cur]) = take i dst @ [buf ! cur]"
    using idst by (simp add: take_Suc_conv_app_nth)
  moreover have "take (n - i) (drop cur buf) = buf ! cur # take (n - (i + 1)) (drop (cur + 1) buf)"
    using lt cur by (simp add: take_Suc_conv_app_nth Cons_nth_drop_Suc [symmetric] Suc_diff_Suc [symmetric] del: Suc_diff_Suc)
  moreover have "drop n (dst[i := buf ! cur]) = drop n dst"
    using lt by simp
  moreover have "cur + 1 + (n - (i + 1)) = cur + (n - i)"
    using lt by simp
  ultimately show ?case
    using lt cur idst by (subst copy_bits.simps) simp
qed

lemma malloc_Some:
  "al k \<noteq> None \<Longrightarrow> \<exists>b. malloc al k n = Some b \<and> length b = n"
  by (auto simp: malloc_def)

lemma split_binary_float_blocks:
  assumes al: "all_allocated al" and len: "32 \<le> length buf"
  shows "split_binary_float al buf =
     Inr \<lparr>sign_block = [buf ! 0, NUL],
          exponent_block = take 8 (drop 1 buf) @ [NUL],
          fraction_block = take 23 (drop 9 buf) @ [NUL]\<rparr>"
proof -
  obtain i0 where a0: "al 0 = Some i0"
    using al by (auto simp: all_allocated_def)
  obtain b0 where b0: "malloc al 1 2 = Some b0" "length b0 = 2"
    using al malloc_Some [of al 1 2] by (auto simp: all_allocated_def)
  obtain b1 where b1: "malloc al 2 9 = Some b1" "length b1 = 9"
    using al malloc_Some [of al 2 9] by (auto simp: all_allocated_def)
  obtain b2 where b2: "malloc al 3 24 = Some b2" "length b2 = 24"
    using al malloc_Some [of al 3 24] by (auto simp: all_allocated_def)
  have c1: "copy_bits buf 8 0 (Ptr 1) b1 = Inr (take 8 (drop 1 buf) @ drop 8 b1, Ptr 9)"
    using copy_bits_Ptr [of 1 8 0 buf b1] len b1(2) by simp
  have c2: "copy_bits buf 23 0 (Ptr 9) b2 = Inr (take 23 (drop 9 buf) @ drop 23 b2, Ptr 32)"
    using copy_bits_Ptr [of 9 23 0 buf b2] len b2(2) by simp
  have s0: "b0[0 := buf ! 0, 1 := NUL] = [buf ! 0, NUL]"
    using b0(2) by (cases b0; cases "tl b0") auto
  have s1: "(take 8 (drop 1 buf) @ drop 8 b1)[8 := NUL] = take 8 (drop 1 buf) @ [NUL]"
  proof -
    obtain y where "drop 8 b1 = [y]"
      using b1(2) by (cases "drop 8 b1") (auto simp: length_Suc_conv dest: arg_cong [where f = length])
    then show ?thesis using len by (simp add: list_update_append)
  qed
  have s2: "(take 23 (drop 9 buf) @ drop 23 b2)[23 := NUL] = take 23 (drop 9 buf) @ [NUL]"
  proof -
    obtain y where "drop 23 b2 = [y]"
      using b2(2) by (cases "drop 23 b2") (auto simp: length_Suc_conv dest: arg_cong [where f = length])
    then show ?thesis using len by (simp add: list_update_append)
  qed
  have r0: "read_at buf (Ptr 0) = Inr (buf ! 0)"
    using len by auto
  have p1: "ptr_inc (Ptr 0) = Ptr 1"
    by simp
  show ?thesis
    by (simp only: split_binary_float_def a0 b0(1) r0 p1 b1(1) c1 b2(1) c2 s0 s1 s2
          option.case sum.case prod.case)
qed

section \<open>The splitter on a 32-character word\<close>

lemma binary_no_NUL: "binary s \<Longrightarrow> c_str (s @ NUL # rest) = s"
proof -
  assume b: "binary s"
  have "c \<noteq> NUL" if "c \<in> set s" for c
  proof -
    have "c = CHR ''0'' \<or> c = CHR ''1''"
      using b that unfolding binary_def list_all_iff by blast
    then show ?thesis
      unfolding NUL_def by (rule disjE) simp_all
  qed
  then have "takeWhile (\<lambda>c. c \<noteq> NUL) (s @ NUL # rest) = s @ takeWhile (\<lambda>c. c \<noteq> NUL) (NUL # rest)"
    by (rule takeWhile_append2)
  then show ?thesis
    by (simp add: c_str_def)
qed

lemma binary_take: "binary s \<Longrightarrow> binary (take n s)"
  unfolding binary_def list_all_iff using set_take_subset [of n s] by blast

lemma binary_drop: "binary s \<Longrightarrow> binary (drop n s)"
  unfolding binary_def list_all_iff using set_drop_subset [of n s] by blast

lemma split_binary_float_word:
  assumes len: "length w = 32" and bin: "binary w" and al: "all_allocated al"
  shows "\<exists>b. split_binary_float al (w @ NUL # rest) = Inr b
           \<and> fields_of b = \<lparr>sign = take 1 w, exponent = take 8 (drop 1 w), fraction = drop 9 w\<rparr>"
proof -
  define buf where "buf = w @ NUL # rest"
  have lb: "32 \<le> length buf"
    using len by (simp add: buf_def)
  have s: "split_binary_float al buf =
     Inr \<lparr>sign_block = [buf ! 0, NUL],
          exponent_block = take 8 (drop 1 buf) @ [NUL],
          fraction_block = take 23 (drop 9 buf) @ [NUL]\<rparr>"
    by (rule split_binary_float_blocks [OF al lb])
  obtain c cs where w: "w = c # cs"
    using len by (cases w) auto
  have w0: "[buf ! 0, NUL] = take 1 w @ NUL # []"
    by (simp add: buf_def w)
  have w1: "take 8 (drop 1 buf) @ [NUL] = take 8 (drop 1 w) @ NUL # []"
    using len by (simp add: buf_def)
  have w2: "take 23 (drop 9 buf) @ [NUL] = drop 9 w @ NUL # []"
    using len by (simp add: buf_def)
  have c0: "c_str ([buf ! 0, NUL]) = take 1 w"
    unfolding w0 by (rule binary_no_NUL [OF binary_take [OF bin]])
  have c1: "c_str (take 8 (drop 1 buf) @ [NUL]) = take 8 (drop 1 w)"
    unfolding w1 by (rule binary_no_NUL [OF binary_take [OF binary_drop [OF bin]]])
  have c2: "c_str (take 23 (drop 9 buf) @ [NUL]) = drop 9 w"
    unfolding w2 by (rule binary_no_NUL [OF binary_drop [OF bin]])
  have "fields_of \<lparr>sign_block = [buf ! 0, NUL],
          exponent_block = take 8 (drop 1 buf) @ [NUL],
          fraction_block = take 23 (drop 9 buf) @ [NUL]\<rparr>
      = \<lparr>sign = take 1 w, exponent = take 8 (drop 1 w), fraction = drop 9 w\<rparr>"
    by (simp only: fields_of_def whole_float.select_convs c0 c1 c2)
  with s show ?thesis
    unfolding buf_def by blast
qed

lemma word_parts:
  assumes "length w = 32"
  shows "take 1 w = [w ! 0]"
    and "take 8 (drop 1 w) = map (\<lambda>i. w ! i) [1..<9]"
    and "drop 9 w = map (\<lambda>i. w ! i) [9..<32]"
    and "take 1 w @ take 8 (drop 1 w) @ drop 9 w = w"
proof -
  show "take 1 w = [w ! 0]"
    using assms by (cases w) simp_all
  show "take 8 (drop 1 w) = map (\<lambda>i. w ! i) [1..<9]"
    using assms by (intro nth_equalityI) (simp_all del: upt_rec_numeral)
  show "drop 9 w = map (\<lambda>i. w ! i) [9..<32]"
    using assms by (intro nth_equalityI) (simp_all del: upt_rec_numeral)
  have "take 8 (drop 1 w) @ drop 9 w = drop 1 w"
    using append_take_drop_id [of 8 "drop 1 w"] by simp
  then show "take 1 w @ take 8 (drop 1 w) @ drop 9 w = w"
    by simp
qed

section \<open>The fields of a 32-character word\<close>

text \<open>
  C9. For a 32-character string of binary digits, followed in memory by its
  terminator, the splitter (when its allocations succeed) yields as fields
  character 0, characters 1 to 8 and characters 9 to 31 of the input, and
  the three fields concatenated give the input back.
\<close>

theorem split_binary_float_fields:
  assumes "length w = 32" and "binary w" and "all_allocated al"
  shows "\<exists>b. split_binary_float al (w @ NUL # rest) = Inr b
           \<and> sign (fields_of b) = [w ! 0]
           \<and> exponent (fields_of b) = map (\<lambda>i. w ! i) [1..<9]
           \<and> fraction (fields_of b) = map (\<lambda>i. w ! i) [9..<32]
           \<and> sign (fields_of b) @ exponent (fields_of b) @ fraction (fields_of b) = w"
proof -
  obtain b where b: "split_binary_float al (w @ NUL # rest) = Inr b"
    and f: "fields_of b = \<lparr>sign = take 1 w, exponent = take 8 (drop 1 w), fraction = drop 9 w\<rparr>"
    using split_binary_float_word [OF assms] by blast
  have s: "sign (fields_of b) = take 1 w" "exponent (fields_of b) = take 8 (drop 1 w)"
    "fraction (fields_of b) = drop 9 w"
    by (simp_all only: f split_fields.select_convs)
  have "sign (fields_of b) = [w ! 0]"
    and "exponent (fields_of b) = map (\<lambda>i. w ! i) [1..<9]"
    and "fraction (fields_of b) = map (\<lambda>i. w ! i) [9..<32]"
    and "sign (fields_of b) @ exponent (fields_of b) @ fraction (fields_of b) = w"
    using word_parts [OF assms(1)] by (simp_all only: s)
  with b show ?thesis
    by blast
qed

theorem split_binary_float_fields_witness:
  "length ''01000000101000000000000000000001'' = 32
   \<and> binary ''01000000101000000000000000000001''
   \<and> all_allocated (\<lambda>k. Some (\<lambda>i. CHR ''x''))
   \<and> (\<exists>b. split_binary_float (\<lambda>k. Some (\<lambda>i. CHR ''x''))
             (''01000000101000000000000000000001'' @ NUL # ''junk'') = Inr b
          \<and> sign (fields_of b) = ''0''
          \<and> exponent (fields_of b) = ''10000001''
          \<and> fraction (fields_of b) = ''01000000000000000000001'')"
proof -
  define w where "w = ''01000000101000000000000000000001''"
  define al :: allocator where "al = (\<lambda>k. Some (\<lambda>i. CHR ''x''))"
  have l: "length w = 32" by (simp add: w_def)
  have bw: "binary w" by (simp add: w_def binary_def)
  have a: "all_allocated al" by (simp add: all_allocated_def al_def)
  obtain b where b: "split_binary_float al (w @ NUL # ''junk'') = Inr b"
    and f: "sign (fields_of b) = [w ! 0]"
      "exponent (fields_of b) = map (\<lambda>i. w ! i) [1..<9]"
      "fraction (fields_of b) = map (\<lambda>i. w ! i) [9..<32]"
    using split_binary_float_fields [OF l bw a, of "''junk''"] by blast
  have "[w ! 0] = ''0''" by (simp add: w_def)
  moreover have "map (\<lambda>i. w ! i) [1..<9] = ''10000001''"
    by (simp add: w_def upt_conv_Cons)
  moreover have "map (\<lambda>i. w ! i) [9..<32] = ''01000000000000000000001''"
    by (simp add: w_def upt_conv_Cons)
  ultimately have "sign (fields_of b) = ''0''" "exponent (fields_of b) = ''10000001''"
    "fraction (fields_of b) = ''01000000000000000000001''"
    using f by simp_all
  then show ?thesis
    using l bw a b unfolding w_def al_def by blast
qed

lemma well_formed_word:
  assumes "length w = 32" and "binary w"
  shows "well_formed \<lparr>sign = take 1 w, exponent = take 8 (drop 1 w), fraction = drop 9 w\<rparr>"
  using assms by (simp add: well_formed_def binary_take binary_drop)

lemma main_word:
  assumes len: "length w = 32" and bin: "binary w" and al: "all_allocated al"
  shows "main al stale w =
     Inr (convert_ieee_float \<lparr>sign = take 1 w, exponent = take 8 (drop 1 w), fraction = drop 9 w\<rparr>)"
proof -
  have buf: "scanf_buffer stale w = w @ NUL # []"
    using len by (simp add: scanf_buffer_def)
  obtain b where b: "split_binary_float al (scanf_buffer stale w) = Inr b"
    and f: "fields_of b = \<lparr>sign = take 1 w, exponent = take 8 (drop 1 w), fraction = drop 9 w\<rparr>"
    unfolding buf using split_binary_float_word [OF len bin al] by blast
  show ?thesis
    using len by (simp add: main_def b f)
qed

section \<open>The pipeline on the known vectors\<close>

lemma main_fields:
  assumes len: "length w = 32" and bin: "binary w" and al: "all_allocated al"
  defines "S \<equiv> nat_of_bits 0 (take 1 w)"
    and "E \<equiv> nat_of_bits 0 (take 8 (drop 1 w))"
    and "F \<equiv> nat_of_bits 0 (drop 9 w)"
  shows "main al stale w =
     Inr (if E = 255 then (Finite 0, [exponent_message])
          else (Finite ((- 1) ^ S * 2 powi (if E = 0 then - 126 else int E - 127)
                         * (1 + of_nat F / 2 ^ 23)), []))"
  unfolding main_word [OF len bin al] S_def E_def F_def
  using convert_ieee_float_well_formed [OF well_formed_word [OF len bin]] by simp

text \<open>
  C6. When the allocations succeed, the pipeline maps the word
  0 10000000 0...0 to 2, the word 1 10000000 0...0 to -2 and the word
  0 01111111 0...0 to 1, without signalling an error.
\<close>

theorem main_known_vectors:
  assumes "all_allocated al"
  shows "main al stale ''01000000000000000000000000000000'' = Inr (Finite 2, [])
       \<and> main al stale ''11000000000000000000000000000000'' = Inr (Finite (- 2), [])
       \<and> main al stale ''00111111100000000000000000000000'' = Inr (Finite 1, [])"
proof -
  have a: "main al stale ''01000000000000000000000000000000'' = Inr (Finite 2, [])"
    by (subst main_fields [OF _ _ assms]) (simp_all add: binary_def digit_def)
  have b: "main al stale ''11000000000000000000000000000000'' = Inr (Finite (- 2), [])"
    by (subst main_fields [OF _ _ assms]) (simp_all add: binary_def digit_def)
  have c: "main al stale ''00111111100000000000000000000000'' = Inr (Finite 1, [])"
    by (subst main_fields [OF _ _ assms]) (simp_all add: binary_def digit_def)
  from a b c show ?thesis by blast
qed

theorem main_known_vectors_witness:
  "all_allocated (\<lambda>k. Some (\<lambda>i. CHR ''x''))
   \<and> main (\<lambda>k. Some (\<lambda>i. CHR ''x'')) (\<lambda>i. CHR ''1'') ''01000000000000000000000000000000''
       = Inr (Finite 2, [])
   \<and> main (\<lambda>k. Some (\<lambda>i. CHR ''x'')) (\<lambda>i. CHR ''1'') ''11000000000000000000000000000000''
       = Inr (Finite (- 2), [])
   \<and> main (\<lambda>k. Some (\<lambda>i. CHR ''x'')) (\<lambda>i. CHR ''1'') ''00111111100000000000000000000000''
       = Inr (Finite 1, [])"
proof -
  have a: "all_allocated (\<lambda>k. Some (\<lambda>i. CHR ''x''))"
    by (simp add: all_allocated_def)
  show ?thesis
    using a main_known_vectors [OF a, of "\<lambda>i. CHR ''1''"] by blast
qed

section \<open>Inverting the sign bit\<close>




lemma pow_neg1_sign_bits:
  "pow_neg1 (parse_bits ''0'' 0) = Finite 1" "pow_neg1 (parse_bits ''1'' 0) = Finite (- 1)"
proof -
  have "parse_bits ''0'' 0 = Finite (of_nat 0)"
    using parse_bits_int(1) [of "''0''"] by (simp add: binary_def digit_def)
  then show "pow_neg1 (parse_bits ''0'' 0) = Finite 1"
    using pow_neg1_bit [of 0] by simp
  have "parse_bits ''1'' 0 = Finite (of_nat 1)"
    using parse_bits_int(1) [of "''1''"] by (simp add: binary_def digit_def)
  then show "pow_neg1 (parse_bits ''1'' 0) = Finite (- 1)"
    using pow_neg1_bit [of 1] by simp
qed





section \<open>The subnormal case and short input\<close>

text \<open>
  C1. The fields 0 00000000 10...0 have exponent 0 and fraction one half.
  A subnormal decoding would give \<open>2 ^ - 126 * (1 / 2)\<close>; the code adds the
  leading 1 all the same and returns \<open>2 ^ - 126 * (1 + 1 / 2)\<close>.
\<close>

theorem convert_ieee_float_subnormal_leading_one:
  "parse_bits ''00000000'' 0 = Finite 0
   \<and> parse_bits ''10000000000000000000000'' 1 = Finite (1 / 2)
   \<and> pow_neg1 (parse_bits ''0'' 0) = Finite 1
   \<and> convert_ieee_float \<lparr>sign = ''0'', exponent = ''00000000'',
         fraction = ''10000000000000000000000''\<rparr>
       = (Finite (2 powi (- 126) * (1 + 1 / 2)), [])
   \<and> fst (convert_ieee_float \<lparr>sign = ''0'', exponent = ''00000000'',
         fraction = ''10000000000000000000000''\<rparr>)
       \<noteq> Finite (1 * 2 powi (1 - 127) * (1 / 2))"
proof -
  have e: "parse_bits ''00000000'' 0 = Finite 0"
    using parse_bits_int(1) [of "''00000000''"] by (simp add: binary_def digit_def)
  have f: "parse_bits ''10000000000000000000000'' 1 = Finite (1 / 2)"
    using parse_bits_frac [of "''10000000000000000000000''"] by (simp add: binary_def digit_def)
  have wf: "well_formed \<lparr>sign = ''0'', exponent = ''00000000'',
         fraction = ''10000000000000000000000''\<rparr>"
    by (simp add: well_formed_def binary_def)
  have c: "convert_ieee_float \<lparr>sign = ''0'', exponent = ''00000000'',
         fraction = ''10000000000000000000000''\<rparr>
       = (Finite (2 powi (- 126) * (1 + 1 / 2)), [])"
    by (simp add: convert_ieee_float_well_formed [OF wf] digit_def)
  show ?thesis
    using e f pow_neg1_sign_bits(1) by (simp add: c)
qed

text \<open>
  C2. On the word of 32 zeros the pipeline returns \<open>2 ^ - 126\<close>, the least
  normal number, not 0: the leading 1 is added to the zero fraction.
\<close>

theorem main_all_zero_word:
  "main (\<lambda>k. Some (\<lambda>i. CHR ''x'')) (\<lambda>i. CHR ''x'') ''00000000000000000000000000000000''
     = Inr (Finite (2 powi (- 126)), [])
   \<and> main (\<lambda>k. Some (\<lambda>i. CHR ''x'')) (\<lambda>i. CHR ''x'') ''00000000000000000000000000000000''
     \<noteq> Inr (Finite 0, [])"
proof -
  have a: "all_allocated (\<lambda>k. Some (\<lambda>i. CHR ''x''))"
    by (simp add: all_allocated_def)
  have "main (\<lambda>k. Some (\<lambda>i. CHR ''x'')) (\<lambda>i. CHR ''x'') ''00000000000000000000000000000000''
     = Inr (Finite (2 powi (- 126)), [])"
    by (subst main_fields [OF _ _ a]) (simp_all add: binary_def digit_def)
  then show ?thesis
    by simp
qed

text \<open>
  C5. The word \<open>01\<close> read by \<open>main\<close> into its 33-byte array is followed by
  its terminator and 30 stale bytes. The loops of the splitter test the
  pointer and not the character, so they do not stop at the terminator: the
  terminator and the stale bytes 3 to 31 are read and copied, and every
  position of the three blocks is written. When the memory ends with the
  terminator, the splitter reads outside of it.
\<close>

theorem split_binary_float_short_word:
  "split_binary_float (\<lambda>k. Some (\<lambda>i. CHR ''x'')) (scanf_buffer stale ''01'')
     = Inr \<lparr>sign_block = [CHR ''0'', NUL],
            exponent_block = CHR ''1'' # NUL # map stale [3..<9] @ [NUL],
            fraction_block = map stale [9..<32] @ [NUL]\<rparr>
   \<and> split_binary_float (\<lambda>k. Some (\<lambda>i. CHR ''x'')) (''01'' @ [NUL]) = Inl OutOfBounds"
proof -
  have a: "all_allocated (\<lambda>k. Some (\<lambda>i. CHR ''x''))"
    by (simp add: all_allocated_def)
  have l: "32 \<le> length (scanf_buffer stale ''01'')"
    by (simp add: scanf_buffer_def)
  have one: "split_binary_float (\<lambda>k. Some (\<lambda>i. CHR ''x'')) (scanf_buffer stale ''01'')
     = Inr \<lparr>sign_block = [CHR ''0'', NUL],
            exponent_block = CHR ''1'' # NUL # map stale [3..<9] @ [NUL],
            fraction_block = map stale [9..<32] @ [NUL]\<rparr>"
  proof -
    have "length ''01'' + 1 = (3::nat)"
      by simp
    then have buf: "scanf_buffer stale ''01'' = ''01'' @ [NUL] @ map stale [3..<33]"
      by (simp only: scanf_buffer_def)
    show ?thesis
      unfolding split_binary_float_blocks [OF a l] unfolding buf by simp
  qed
  have two: "split_binary_float (\<lambda>k. Some (\<lambda>i. CHR ''x'')) (''01'' @ [NUL]) = Inl OutOfBounds"
    by (simp add: split_binary_float_def malloc_def)
  from one two show ?thesis by blast
qed

section \<open>The exponent passed to pow is an integer or an infinity\<close>

lemma is_integral_of_int: "is_integral (of_int n)"
  by (simp add: is_integral_def)

lemma is_integralE: "is_integral x \<Longrightarrow> \<exists>n. x = of_int n"
  unfolding is_integral_def by metis

lemma round_to_format_integral:
  assumes "is_integral x"
  shows "is_integral (round_to_format p elsb x)"
proof (cases "x = 0")
  case True
  then show ?thesis
    using is_integral_of_int [of 0] by (simp add: round_to_format_def)
next
  case False
  obtain n where n: "x = of_int n"
    using is_integralE [OF assms] by blast
  define e where "e = max (floor_log2 \<bar>x\<bar> - (p - 1)) elsb"
  have r: "round_to_format p elsb x = of_int (round_half_even (x / 2 powi e)) * 2 powi e"
    using False by (simp add: round_to_format_def Let_def e_def)
  show ?thesis
  proof (cases "0 \<le> e")
    case True
    then have "round_to_format p elsb x = of_int (round_half_even (x / 2 powi e) * 2 ^ nat e)"
      by (simp add: r power_int_nonneg_exp)
    then show ?thesis
      by (simp only: is_integral_of_int)
  next
    case neg: False
    then have "x / 2 powi e = of_int n * 2 powi (- e)"
      by (simp add: n power_int_minus divide_inverse)
    also have "\<dots> = of_int (n * 2 ^ nat (- e))"
      using neg by (simp add: power_int_nonneg_exp)
    finally have q: "x / 2 powi e = of_int (n * 2 ^ nat (- e))" .
    have "round_half_even (x / 2 powi e) = n * 2 ^ nat (- e)"
      unfolding q by (rule round_half_even_of_int)
    then have "round_to_format p elsb x = x / 2 powi e * 2 powi e"
      by (simp only: r q)
    then have "round_to_format p elsb x = x"
      by simp
    then show ?thesis
      using assms by simp
  qed
qed

lemma fl32_integral: "is_integral x \<Longrightarrow> integral_or_inf (fl32 x)"
  using round_to_format_integral [of x 24 "- 149"]
  by (simp add: fl32_def overflow_to_def Let_def)

lemma char_to_int_bounds: "- 128 \<le> char_to_int c" "char_to_int c \<le> 127"
proof -
  have "(of_char c :: int) = int (of_char c)"
    by (simp only: of_nat_of_char)
  moreover have "(of_char c :: nat) < 256"
    by (rule nat_of_char_less_256)
  ultimately have "0 \<le> (of_char c :: int)" "(of_char c :: int) < 256"
    by linarith+
  then show "- 128 \<le> char_to_int c" "char_to_int c \<le> 127"
    by (auto simp: char_to_int_def Let_def)
qed

lemma int_to_float_digit:
  "int_to_float (char_to_int c - char_to_int CHR ''0'') = Finite (of_int (char_to_int c - char_to_int CHR ''0''))"
proof -
  have "\<bar>char_to_int c - char_to_int CHR ''0''\<bar> < 2 ^ 24"
    using char_to_int_bounds [of c] char_to_int_bounds [of "CHR ''0''"] by simp
  then show ?thesis
    by (rule int_to_float_small)
qed

lemma fp_mul_two_integral:
  assumes "integral_or_inf acc"
  shows "integral_or_inf (fp_mul fl32 acc (Finite 2))"
proof (cases acc)
  case (Finite y)
  obtain n where n: "y = of_int n"
    using assms Finite is_integralE by auto
  have "integral_or_inf (fl32 (of_int (n * 2)))"
    by (rule fl32_integral [OF is_integral_of_int])
  moreover have "integral_or_inf (Finite 0)"
    using is_integral_of_int [of 0] by simp
  ultimately show ?thesis
    by (simp add: Finite n)
qed (use assms in simp_all)

lemma fp_add_digit_integral:
  assumes "integral_or_inf a"
  shows "integral_or_inf (fp_add fl32 a (Finite (of_int d)))"
proof (cases a)
  case (Finite z)
  obtain k where k: "z = of_int k"
    using assms Finite is_integralE by auto
  have "integral_or_inf (fl32 (of_int (k + d)))"
    by (rule fl32_integral [OF is_integral_of_int])
  then show ?thesis
    by (simp add: Finite k)
next
  case NegZero
  have "integral_or_inf (fl32 (of_int d))"
    by (rule fl32_integral [OF is_integral_of_int])
  then show ?thesis
    by (simp add: NegZero)
qed (use assms in simp_all)

lemma parse_int_step_integral:
  assumes "integral_or_inf acc"
  shows "integral_or_inf (fp_add fl32 (fp_mul fl32 acc (int_to_float 2))
           (int_to_float (char_to_int c - char_to_int CHR ''0'')))"
  unfolding int_to_float_2 int_to_float_digit
  by (rule fp_add_digit_integral [OF fp_mul_two_integral [OF assms]])

lemma parse_int_loop_integral:
  "integral_or_inf acc \<Longrightarrow> integral_or_inf (parse_int_loop acc s)"
proof (induction s arbitrary: acc)
  case Nil
  then show ?case by simp
next
  case (Cons c cs)
  show ?case
    using Cons.IH [OF parse_int_step_integral [OF Cons.prems]] by simp
qed

text \<open>
  The exponent that \<open>convert_ieee_float\<close> passes to \<^verbatim>\<open>pow(2.0, _)\<close> is an
  integer or an infinity, whatever the characters of the exponent field.
\<close>

lemma pow_2_argument_integral:
  "integral_or_inf (fp_sub fl32 (parse_bits s 0) (int_to_float 127))"
proof -
  have i: "integral_or_inf (parse_bits s 0)"
    using parse_int_loop_integral [of "Finite 0" s] is_integral_of_int [of 0]
    by (simp add: parse_bits_def)
  have b: "int_to_float 127 = Finite 127"
    using int_to_float_small [of 127] by simp
  have "fp_sub fl32 (parse_bits s 0) (int_to_float 127)
      = fp_add fl32 (parse_bits s 0) (Finite (of_int (- 127)))"
    by (simp add: fp_sub_def b)
  then show ?thesis
    using fp_add_digit_integral [OF i, of "- 127"] by simp
qed

end
